theory Spec2Isabelle
  imports Main "HOL-Library.Monad_Syntax"
begin

section \<open>C primitives used by unigma.c\<close>

text \<open>
  C \<open>int\<close> values are modelled as HOL integers; every value that occurs below is a
  character code, a rotor position or a small sum of the two, far from the limits of a
  machine \<open>int\<close>. The \<open>%\<close> operator of C truncates towards zero, unlike HOL's \<open>mod\<close>.
\<close>

definition c_rem :: "int \<Rightarrow> int \<Rightarrow> int" where
  "c_rem a b = sgn a * (\<bar>a\<bar> mod \<bar>b\<bar>)"

text \<open>
  A \<open>char\<close> array is the list of all its bytes, the terminator included. Reading at an
  index outside the array has no defined result in C: the model returns \<open>None\<close>.
\<close>

definition NUL :: char where
  "NUL = CHR 0x00"

definition SPACE :: char where
  "SPACE = CHR '' ''"

definition rd :: "string \<Rightarrow> int \<Rightarrow> char option" where
  "rd s i = (if 0 \<le> i \<and> i < int (length s) then Some (s ! nat i) else None)"

text \<open>\<open>strlen\<close>: the number of bytes before the first terminator.\<close>

definition strlen :: "string \<Rightarrow> nat" where
  "strlen s = length (takeWhile (\<lambda>x. x \<noteq> NUL) s)"

text \<open>The string an array holds: its bytes before the first terminator.\<close>

definition content :: "string \<Rightarrow> string" where
  "content s = takeWhile (\<lambda>x. x \<noteq> NUL) s"

text \<open>A string literal: its characters followed by the terminator.\<close>

definition literal :: "string \<Rightarrow> string" where
  "literal s = s @ [NUL]"

text \<open>
  \<open>strcpy_s(dest, size, src)\<close> (the default build, \<open>UNIVAC\<close> undefined) for a source
  that fits: the characters of \<open>src\<close> and a terminator overwrite the start of \<open>dest\<close>,
  the bytes behind them stay as they were. \<open>src\<close> is the content of the source string,
  without its terminator.
\<close>

definition SAFE_STRCPY :: "string \<Rightarrow> string \<Rightarrow> string" where
  "SAFE_STRCPY dest src = src @ [NUL] @ drop (length src + 1) dest"

section \<open>Constants and machine state (unigma.h, unigma.c lines 18-32)\<close>

definition NUM_ROTORS :: nat where
  "NUM_ROTORS = 3"

definition NUM_ROTOR_WIRINGS :: nat where
  "NUM_ROTOR_WIRINGS = 4"

definition ALPHABET_SIZE :: int where
  "ALPHABET_SIZE = 26"

definition MAX_PLUGBOARD_LEN :: nat where
  "MAX_PLUGBOARD_LEN = 256"

definition ROTOR_WIRINGS :: "string list" where
  "ROTOR_WIRINGS =
    [literal ''EKMFLGDQVZNTOWYHXUSPAIBRCJ'',
     literal ''AJDKSIRUXBLHWTMCQGZNPYFVOE'',
     literal ''BDFHJLCPRTXVZNYEIWGAKMUSQO'',
     literal ''YRUHQSLDPXNGOKMIEBFZCWVJAT'']"

definition NOTCH_POSITIONS_INIT :: "int list" where
  "NOTCH_POSITIONS_INIT = [16, 4, 21]"

definition ALPHABET :: string where
  "ALPHABET = literal ''ABCDEFGHIJKLMNOPQRSTUVWXYZ''"

text \<open>
  \<open>EnigmaState\<close>: four wiring arrays of 27 bytes, three notch positions, three rotor
  positions (index 0 is the right slot, 1 the middle, 2 the left) and the plugboard
  array of 256 bytes.
\<close>

record EnigmaState =
  rotors :: "string list"
  notch_positions :: "int list"
  positions :: "int list"
  plugboard :: string

section \<open>Initialisation (unigma.c lines 56-100)\<close>

text \<open>The state after \<open>memset(state, 0, sizeof(EnigmaState))\<close>.\<close>

definition zeroed :: EnigmaState where
  "zeroed = \<lparr>rotors = replicate NUM_ROTOR_WIRINGS (replicate 27 NUL),
             notch_positions = replicate NUM_ROTORS 0,
             positions = replicate NUM_ROTORS 0,
             plugboard = replicate MAX_PLUGBOARD_LEN NUL\<rparr>"

definition init_rotors :: "EnigmaState \<Rightarrow> EnigmaState" where
  "init_rotors state =
     fold (\<lambda>i st. st\<lparr>rotors := (rotors st)[i := SAFE_STRCPY (rotors st ! i)
                                                       (content (ROTOR_WIRINGS ! i))]\<rparr>)
          [0..<NUM_ROTOR_WIRINGS] state"

definition init_notches :: "EnigmaState \<Rightarrow> EnigmaState" where
  "init_notches state =
     fold (\<lambda>i st. st\<lparr>notch_positions := (notch_positions st)[i := NOTCH_POSITIONS_INIT ! i]\<rparr>)
          [0..<NUM_ROTORS] state"

definition init_positions :: "EnigmaState \<Rightarrow> EnigmaState" where
  "init_positions state =
     fold (\<lambda>i st. st\<lparr>positions := (positions st)[i := 0]\<rparr>) [0..<NUM_ROTORS] state"

definition init_plugboard :: "EnigmaState \<Rightarrow> EnigmaState" where
  "init_plugboard state = state\<lparr>plugboard := (plugboard state)[0 := NUL]\<rparr>"

definition init_enigma :: EnigmaState where
  "init_enigma = init_plugboard (init_positions (init_notches (init_rotors zeroed)))"

section \<open>Helpers (unigma.c lines 102-136)\<close>

text \<open>
  \<open>idx(s, c)\<close>: the pointer \<open>p\<close> is the offset \<open>p - s\<close>; the loop ends at the
  terminator with \<open>-1\<close> or at the first byte equal to \<open>c\<close> with its offset.
\<close>

function idx_loop :: "string \<Rightarrow> int \<Rightarrow> int \<Rightarrow> int option" where
  "idx_loop s c p =
     (case rd s p of
        None \<Rightarrow> None
      | Some x \<Rightarrow>
          if x = NUL then Some (- 1)
          else if of_char x = c then Some p
          else idx_loop s c (p + 1))"
  by pat_completeness auto
termination
  by (relation "measure (\<lambda>(s, c, p). nat (int (length s) - p))")
     (auto simp: rd_def split: if_splits)

definition idx :: "string \<Rightarrow> int \<Rightarrow> int option" where
  "idx s c = idx_loop s c 0"

definition mod_positive :: "int \<Rightarrow> int" where
  "mod_positive a = c_rem (c_rem a ALPHABET_SIZE + ALPHABET_SIZE) ALPHABET_SIZE"

text \<open>
  \<open>encode_through_rotor\<close>: \<open>direction = 0\<close> is forward, anything else reverse. The
  wiring array is read at \<open>i\<close>; a rotor index outside the \<open>rotors\<close> array is a read
  outside the state.
\<close>

definition encode_through_rotor ::
  "int \<Rightarrow> nat \<Rightarrow> int \<Rightarrow> int \<Rightarrow> EnigmaState \<Rightarrow> int option" where
  "encode_through_rotor k rotor_index position direction state =
     (let i = mod_positive (k + position) in
      if rotor_index < length (rotors state) then
        if direction = 0 then
          do {
            wired_char \<leftarrow> rd (rotors state ! rotor_index) i;
            j \<leftarrow> idx ALPHABET (of_char wired_char);
            Some (mod_positive (j - position))
          }
        else
          do {
            alphabet_char \<leftarrow> rd ALPHABET i;
            j \<leftarrow> idx (rotors state ! rotor_index) (of_char alphabet_char);
            Some (mod_positive (j - position))
          }
      else None)"

section \<open>Plugboard (unigma.c lines 138-160)\<close>

text \<open>The inner loop \<open>while (*ptr == ' ') ptr++\<close>: the offset it stops at.\<close>

function skip_spaces :: "string \<Rightarrow> int \<Rightarrow> int option" where
  "skip_spaces pb ptr =
     (case rd pb ptr of
        None \<Rightarrow> None
      | Some x \<Rightarrow> if x = SPACE then skip_spaces pb (ptr + 1) else Some ptr)"
  by pat_completeness auto
termination
  by (relation "measure (\<lambda>(pb, ptr). nat (int (length pb) - ptr))")
     (auto simp: rd_def split: if_splits)

text \<open>
  The outer loop of \<open>apply_plugboard\<close>, from the offset \<open>ptr\<close>. The result is the
  returned character together with the offset \<open>ptr\<close> holds when the function returns.
  \<open>*(ptr + 1)\<close> is read in the first test only when \<open>c == *ptr\<close>, and always in the
  second test.
\<close>

function plug_loop :: "char \<Rightarrow> string \<Rightarrow> int \<Rightarrow> (int \<times> char) option" where
  "plug_loop c pb ptr =
     (case rd pb ptr of
        None \<Rightarrow> None
      | Some a \<Rightarrow>
          if a = NUL then Some (ptr, c)
          else
            (case rd pb (ptr + 1) of
               None \<Rightarrow> None
             | Some b \<Rightarrow>
                 if c = a \<and> b \<noteq> NUL then Some (ptr, b)
                 else if c = b then Some (ptr, a)
                 else
                   (case skip_spaces pb (ptr + 2) of
                      None \<Rightarrow> None
                    | Some ptr' \<Rightarrow> plug_loop c pb ptr')))"
  by pat_completeness auto

lemma skip_spaces_bounds:
  "skip_spaces pb p = Some q \<Longrightarrow> p \<le> q \<and> q < int (length pb)"
proof (induction pb p rule: skip_spaces.induct)
  case (1 pb ptr)
  show ?case
  proof (cases "rd pb ptr")
    case None
    with "1.prems" show ?thesis by simp
  next
    case (Some x)
    then have lt: "ptr < int (length pb)"
      by (simp add: rd_def split: if_splits)
    show ?thesis
    proof (cases "x = SPACE")
      case True
      with Some "1.prems" have "skip_spaces pb (ptr + 1) = Some q" by simp
      with "1.IH" [OF Some True] show ?thesis by simp
    next
      case False
      with Some "1.prems" lt show ?thesis by simp
    qed
  qed
qed

termination plug_loop
proof (relation "measure (\<lambda>(c, pb, ptr). nat (int (length pb) - ptr))", goal_cases)
  case 1
  show ?case by simp
next
  case (2 c pb ptr a b ptr')
  then have "skip_spaces pb (ptr + 2) = Some ptr'" by simp
  then have "ptr + 2 \<le> ptr' \<and> ptr' < int (length pb)"
    by (rule skip_spaces_bounds)
  then show ?case by simp
qed

text \<open>
  \<open>apply_plugboard(c, plugboard)\<close>: the character returned, \<open>None\<close> when the scan
  reads outside the plugboard array.
\<close>

definition apply_plugboard :: "char \<Rightarrow> string \<Rightarrow> char option" where
  "apply_plugboard c pb =
     (case rd pb 0 of
        None \<Rightarrow> None
      | Some x \<Rightarrow> if x = NUL then Some c else map_option snd (plug_loop c pb 0))"

section \<open>Stepping (unigma.c lines 162-175)\<close>

definition step_rotors :: "EnigmaState \<Rightarrow> EnigmaState" where
  "step_rotors state =
     (let st1 =
        (if positions state ! 1 = notch_positions state ! 1 then
           let s = state\<lparr>positions := (positions state)[1 := mod_positive (positions state ! 1 + 1)]\<rparr>
           in s\<lparr>positions := (positions s)[2 := mod_positive (positions s ! 2 + 1)]\<rparr>
         else if positions state ! 0 = notch_positions state ! 0 then
           state\<lparr>positions := (positions state)[1 := mod_positive (positions state ! 1 + 1)]\<rparr>
         else state)
      in st1\<lparr>positions := (positions st1)[0 := mod_positive (positions st1 ! 0 + 1)]\<rparr>)"

section \<open>The enciphering loop (unigma.c lines 177-222)\<close>

text \<open>
  Lines 196-218 of the loop body: the substitution of one letter \<open>c\<close> (a character code
  in \<open>'A'..'Z'\<close>) at the positions the state holds, after the rotors have stepped. The
  result is the value handed to \<open>putchar\<close>. The \<open>char\<close> that \<open>apply_plugboard\<close>
  returns is read as a code in 0..255; a build with signed \<open>char\<close> reads the codes
  0..127, the only ones a plugboard of ASCII characters holds, in the same way.
\<close>

definition substitute :: "EnigmaState \<Rightarrow> int \<Rightarrow> int option" where
  "substitute state c0 =
     do {
       ch \<leftarrow> apply_plugboard (char_of c0) (plugboard state);
       let c = of_char ch - 65;
       c \<leftarrow> encode_through_rotor c 2 (positions state ! 0) 0 state;
       c \<leftarrow> encode_through_rotor c 1 (positions state ! 1) 0 state;
       c \<leftarrow> encode_through_rotor c 0 (positions state ! 2) 0 state;
       w \<leftarrow> rd (rotors state ! 3) c;
       c \<leftarrow> idx ALPHABET (of_char w);
       c \<leftarrow> encode_through_rotor c 0 (positions state ! 2) 1 state;
       c \<leftarrow> encode_through_rotor c 1 (positions state ! 1) 1 state;
       c \<leftarrow> encode_through_rotor c 2 (positions state ! 0) 1 state;
       let c = c + 65;
       ch \<leftarrow> apply_plugboard (char_of c) (plugboard state);
       Some (of_char ch)
     }"

text \<open>The case folding of lines 183-185 and 346-348, on a character code.\<close>

definition to_upper :: "int \<Rightarrow> int" where
  "to_upper c = (if c \<ge> 97 \<and> c \<le> 122 then c - 32 else c)"

text \<open>
  One iteration of the \<open>while\<close> loop on the byte \<open>b\<close> that \<open>getchar\<close> returned: the
  state afterwards and the byte written by \<open>putchar\<close>.
\<close>

definition loop_body :: "EnigmaState \<Rightarrow> char \<Rightarrow> (EnigmaState \<times> char) option" where
  "loop_body state b =
     (let c = to_upper (of_char b)
      in if c < 65 \<or> c > 90 then Some (state, char_of c)
         else
           (let state = step_rotors state
            in map_option (\<lambda>c. (state, char_of c)) (substitute state c)))"

text \<open>
  \<open>run_enigma\<close> on the bytes standard input delivers before end of file: the final
  state and the bytes written to standard output.
\<close>

fun run_enigma :: "EnigmaState \<Rightarrow> string \<Rightarrow> (EnigmaState \<times> string) option" where
  "run_enigma state [] = Some (state, [])"
| "run_enigma state (b # bs) =
     (case loop_body state b of
        None \<Rightarrow> None
      | Some (state', out) \<Rightarrow>
          map_option (\<lambda>(state'', outs). (state'', out # outs)) (run_enigma state' bs))"

section \<open>Configuration (unigma.c lines 337-383)\<close>

text \<open>The two ways \<open>exit(1)\<close> is reached in each setter, by the message printed.\<close>

datatype config_error =
    PositionsNotThreeLetters
  | InvalidRotorPosition char
  | PlugboardTooLong

text \<open>
  \<open>set_rotor_positions\<close>: the argument is \<open>None\<close> for a null pointer, else the content
  of the string. The validation loop folds a local copy of each character to upper case;
  the three assignments after it read the argument itself.
\<close>

definition set_rotor_positions ::
  "EnigmaState \<Rightarrow> string option \<Rightarrow> config_error + EnigmaState" where
  "set_rotor_positions state arg =
     (case arg of
        None \<Rightarrow> Inl PositionsNotThreeLetters
      | Some pos \<Rightarrow>
          if length pos \<noteq> 3 then Inl PositionsNotThreeLetters
          else
            (case find (\<lambda>x. let c = to_upper (of_char x) in c < 65 \<or> c > 90) pos of
               Some x \<Rightarrow> Inl (InvalidRotorPosition x)
             | None \<Rightarrow>
                 (let s = state\<lparr>positions := (positions state)[2 := of_char (pos ! 0) - 65]\<rparr>;
                      s = s\<lparr>positions := (positions s)[1 := of_char (pos ! 1) - 65]\<rparr>;
                      s = s\<lparr>positions := (positions s)[0 := of_char (pos ! 2) - 65]\<rparr>
                  in Inr s)))"

text \<open>
  \<open>set_plugboard\<close>: a null pointer empties the plugboard; a string of 256 or more
  characters exits; any other string is copied and its lower-case letters are folded, one
  byte at a time up to the terminator.
\<close>

definition upper_char :: "char \<Rightarrow> char" where
  "upper_char x =
     (if (of_char x :: int) \<ge> 97 \<and> (of_char x :: int) \<le> 122
      then char_of ((of_char x :: int) - 32) else x)"

definition set_plugboard ::
  "EnigmaState \<Rightarrow> string option \<Rightarrow> config_error + EnigmaState" where
  "set_plugboard state arg =
     (case arg of
        None \<Rightarrow> Inr (state\<lparr>plugboard := (plugboard state)[0 := NUL]\<rparr>)
      | Some plugboard_config \<Rightarrow>
          (let len = length plugboard_config in
           if len \<ge> MAX_PLUGBOARD_LEN then Inl PlugboardTooLong
           else
             (let pb = SAFE_STRCPY (plugboard state) plugboard_config;
                  n = strlen pb
              in Inr (state\<lparr>plugboard := map upper_char (take n pb) @ drop n pb\<rparr>))))"

section \<open>The wiring tables as the specification states them\<close>

text \<open>
  The specification identifies the letters A..Z with 0..25 and gives each wiring as the
  sequence of 26 output contacts; \<open>wiring_table r\<close> is that sequence for rotor I, II,
  III (\<open>r = 0, 1, 2\<close>) and reflector B (\<open>r = 3\<close>). \<open>inverse_table W\<close> lists, for each
  contact \<open>j\<close>, the place where \<open>j\<close> first occurs in \<open>W\<close>: the inverse permutation
  when \<open>W\<close> is a permutation of 0..25.
\<close>

definition letter_code :: "char \<Rightarrow> int" where
  "letter_code x = of_char x - 65"

definition wiring_table :: "nat \<Rightarrow> int list" where
  "wiring_table r = map letter_code
     ([''EKMFLGDQVZNTOWYHXUSPAIBRCJ'', ''AJDKSIRUXBLHWTMCQGZNPYFVOE'',
       ''BDFHJLCPRTXVZNYEIWGAKMUSQO'', ''YRUHQSLDPXNGOKMIEBFZCWVJAT''] ! r)"

definition inverse_table :: "int list \<Rightarrow> int list" where
  "inverse_table W = map (\<lambda>j. int (length (takeWhile (\<lambda>x. x \<noteq> int j) W))) [0..<26]"

section \<open>Well-formed plugboards\<close>

text \<open>
  A well-formed plugboard string, as it is stored: pairs of upper-case letters, each pair
  followed by any number of spaces, no letter occurring twice. \<open>plugboard_ok\<close> says
  that the plugboard array holds such a string and its terminator. \<open>swap_of\<close> is the
  substitution such a string denotes: the partner of a paired letter, any other character
  itself.
\<close>

definition is_upper_letter :: "char \<Rightarrow> bool" where
  "is_upper_letter x \<longleftrightarrow> 65 \<le> (of_char x :: int) \<and> (of_char x :: int) \<le> 90"

function pairs_layout :: "string \<Rightarrow> bool" where
  "pairs_layout [] = True"
| "pairs_layout [a] = False"
| "pairs_layout (a # b # rest) =
     (is_upper_letter a \<and> is_upper_letter b \<and> pairs_layout (dropWhile (\<lambda>x. x = SPACE) rest))"
  by pat_completeness auto
termination
proof (relation "measure length", goal_cases)
  case 1
  show ?case by simp
next
  case (2 a b rest)
  have "length (dropWhile (\<lambda>x. x = SPACE) rest) \<le> length rest"
    by (rule length_dropWhile_le)
  then show ?case by simp
qed

definition plugboard_ok :: "string \<Rightarrow> bool" where
  "plugboard_ok pb \<longleftrightarrow>
     length (content pb) < length pb \<and> pairs_layout (content pb) \<and>
     distinct (filter (\<lambda>x. x \<noteq> SPACE) (content pb))"

text \<open>
  A well-formed plugboard argument of \<open>set_plugboard\<close>: at most 255 characters that,
  with lower case folded, are such pairs.
\<close>

definition plug_config_ok :: "string \<Rightarrow> bool" where
  "plug_config_ok cfg \<longleftrightarrow>
     length cfg \<le> 255 \<and> pairs_layout (map upper_char cfg) \<and>
     distinct (filter (\<lambda>x. x \<noteq> SPACE) (map upper_char cfg))"

function swap_of :: "string \<Rightarrow> char \<Rightarrow> char" where
  "swap_of (a # b # rest) c =
     (if c = a then b else if c = b then a
      else swap_of (dropWhile (\<lambda>x. x = SPACE) rest) c)"
| "swap_of [] c = c"
| "swap_of [a] c = c"
  by pat_completeness auto
termination
proof (relation "measure (\<lambda>(t, c). length t)", goal_cases)
  case 1
  show ?case by simp
next
  case (2 a b rest c)
  have "length (dropWhile (\<lambda>x. x = SPACE) rest) \<le> length rest"
    by (rule length_dropWhile_le)
  then show ?case by simp
qed

section \<open>Reference scenario\<close>

text \<open>
  C6. From the initial state (positions A A A, that is 0 0 0, and an empty plugboard) the
  input stream \<open>AAAAA\<close> is enciphered to exactly \<open>BDZGO\<close>.
\<close>

theorem scenario_AAAAA:
  "positions init_enigma = [0, 0, 0] \<and> content (plugboard init_enigma) = [] \<and>
   map_option snd (run_enigma init_enigma ''AAAAA'') = Some ''BDZGO''"
  by code_simp

section \<open>Arithmetic and the wiring tables\<close>

lemma mod_neg_26: "(26 - (- a) mod 26) mod 26 = a mod (26::int)"
proof -
  have "(26 - (- a) mod 26) mod 26 = (- ((- a) mod 26)) mod 26"
    using mod_add_self2 [of "- ((- a) mod 26)" 26] by simp
  also have "\<dots> = (- (- a)) mod 26"
    by (rule mod_minus_eq)
  finally show ?thesis by simp
qed

lemma mod_positive_eq: "mod_positive a = a mod 26"
proof (cases "0 \<le> a")
  case True
  then show ?thesis
    by (cases "a = 0") (simp_all add: mod_positive_def c_rem_def ALPHABET_SIZE_def sgn_if)
next
  case False
  then have neg: "a < 0" by simp
  have r: "0 \<le> (- a) mod 26" "(- a) mod 26 < 26" by simp_all
  have "c_rem a 26 = - ((- a) mod 26)"
    using neg by (simp add: c_rem_def sgn_if)
  moreover have "c_rem (26 - (- a) mod 26) 26 = (26 - (- a) mod 26) mod 26"
    using r by (simp add: c_rem_def sgn_if)
  ultimately show ?thesis
    by (simp add: mod_positive_def ALPHABET_SIZE_def mod_minus_eq)
qed

lemma rotors_init: "rotors init_enigma = ROTOR_WIRINGS"
  by code_simp

lemma forward_tables:
  "list_all (\<lambda>r. map (\<lambda>i. rd (ROTOR_WIRINGS ! r) (int i) \<bind> (\<lambda>w. idx ALPHABET (of_char w))) [0..<26]
     = map Some (wiring_table r)) [0..<4]"
  by code_simp

lemma reverse_tables:
  "list_all (\<lambda>r. map (\<lambda>i. rd ALPHABET (int i) \<bind> (\<lambda>w. idx (ROTOR_WIRINGS ! r) (of_char w))) [0..<26]
     = map Some (inverse_table (wiring_table r))) [0..<4]"
  by code_simp

lemma tables_range:
  "list_all (\<lambda>r. list_all (\<lambda>x. 0 \<le> x \<and> x < 26) (wiring_table r) \<and>
                  list_all (\<lambda>x. 0 \<le> x \<and> x < 26) (inverse_table (wiring_table r)) \<and>
                  length (wiring_table r) = 26) [0..<4]"
  by code_simp

lemma tables_inverse:
  "list_all (\<lambda>r. map (\<lambda>i. inverse_table (wiring_table r) ! nat (wiring_table r ! i)) [0..<26] = map int [0..<26]
               \<and> map (\<lambda>i. wiring_table r ! nat (inverse_table (wiring_table r) ! i)) [0..<26] = map int [0..<26]) [0..<4]"
  by code_simp

lemma reflector_table:
  "map (\<lambda>i. wiring_table 3 ! nat (wiring_table 3 ! i)) [0..<26] = map int [0..<26] \<and>
   list_all (\<lambda>i. wiring_table 3 ! i \<noteq> int i) [0..<26]"
  by code_simp

lemma table_nth:
  assumes "map f [0..<26] = map g T" and "i < 26"
  shows "f i = g (T ! i)"
proof -
  from assms(1) have "length (map f [0..<26]) = length (map g T)"
    by (rule arg_cong)
  then have len: "length T = 26" by simp
  have "f i = map f [0..<26] ! i"
    using assms(2) by simp
  also have "\<dots> = map g T ! i"
    by (simp only: assms(1))
  also have "\<dots> = g (T ! i)"
    using len assms(2) by simp
  finally show ?thesis .
qed

lemma rotor_cases: "r < 4 \<Longrightarrow> r \<in> set [0..<4]"
  by simp

lemma forward_lookup:
  assumes "r < 4" and "i < 26"
  shows "rd (ROTOR_WIRINGS ! r) (int i) \<bind> (\<lambda>w. idx ALPHABET (of_char w)) = Some (wiring_table r ! i)"
proof -
  from forward_tables assms(1)
  have "map (\<lambda>i. rd (ROTOR_WIRINGS ! r) (int i) \<bind> (\<lambda>w. idx ALPHABET (of_char w))) [0..<26]
     = map Some (wiring_table r)"
    unfolding list_all_iff using rotor_cases by blast
  from table_nth [OF this assms(2)] show ?thesis .
qed

lemma reverse_lookup:
  assumes "r < 4" and "i < 26"
  shows "rd ALPHABET (int i) \<bind> (\<lambda>w. idx (ROTOR_WIRINGS ! r) (of_char w))
           = Some (inverse_table (wiring_table r) ! i)"
proof -
  from reverse_tables assms(1)
  have "map (\<lambda>i. rd ALPHABET (int i) \<bind> (\<lambda>w. idx (ROTOR_WIRINGS ! r) (of_char w))) [0..<26]
     = map Some (inverse_table (wiring_table r))"
    unfolding list_all_iff using rotor_cases by blast
  from table_nth [OF this assms(2)] show ?thesis .
qed

lemma wiring_range:
  assumes "r < 4" and "i < 26"
  shows "0 \<le> wiring_table r ! i \<and> wiring_table r ! i < 26"
    and "0 \<le> inverse_table (wiring_table r) ! i \<and> inverse_table (wiring_table r) ! i < 26"
proof -
  from tables_range assms(1)
  have a: "list_all (\<lambda>x. 0 \<le> x \<and> x < 26) (wiring_table r)"
    and b: "list_all (\<lambda>x. 0 \<le> x \<and> x < 26) (inverse_table (wiring_table r))"
    and l: "length (wiring_table r) = 26"
    unfolding list_all_iff [of _ "[0..<4]"] using rotor_cases by blast+
  have l': "length (inverse_table (wiring_table r)) = 26"
    by (simp add: inverse_table_def)
  from a l assms(2) show "0 \<le> wiring_table r ! i \<and> wiring_table r ! i < 26"
    by (simp add: list_all_length)
  from b l' assms(2)
  show "0 \<le> inverse_table (wiring_table r) ! i \<and> inverse_table (wiring_table r) ! i < 26"
    by (simp add: list_all_length)
qed

lemma wiring_inverse:
  assumes "r < 4" and "i < 26"
  shows "inverse_table (wiring_table r) ! nat (wiring_table r ! i) = int i"
    and "wiring_table r ! nat (inverse_table (wiring_table r) ! i) = int i"
proof -
  from tables_inverse assms(1)
  have a: "map (\<lambda>i. inverse_table (wiring_table r) ! nat (wiring_table r ! i)) [0..<26] = map int [0..<26]"
    and b: "map (\<lambda>i. wiring_table r ! nat (inverse_table (wiring_table r) ! i)) [0..<26] = map int [0..<26]"
    unfolding list_all_iff using rotor_cases by blast+
  have n: "[0..<26] ! i = i" using assms(2) by simp
  from table_nth [OF a assms(2)] n
  show "inverse_table (wiring_table r) ! nat (wiring_table r ! i) = int i" by simp
  from table_nth [OF b assms(2)] n
  show "wiring_table r ! nat (inverse_table (wiring_table r) ! i) = int i" by simp
qed

lemma reflector_lookup:
  assumes "i < 26"
  shows "wiring_table 3 ! nat (wiring_table 3 ! i) = int i" and "wiring_table 3 ! i \<noteq> int i"
proof -
  from reflector_table
  have a: "map (\<lambda>i. wiring_table 3 ! nat (wiring_table 3 ! i)) [0..<26] = map int [0..<26]"
    and b: "list_all (\<lambda>i. wiring_table 3 ! i \<noteq> int i) [0..<26]"
    by blast+
  have n: "[0..<26] ! i = i" using assms by simp
  from table_nth [OF a assms] n
  show "wiring_table 3 ! nat (wiring_table 3 ! i) = int i" by simp
  from b assms show "wiring_table 3 ! i \<noteq> int i"
    unfolding list_all_iff by simp
qed

section \<open>The rotor transform\<close>

lemma length_ROTOR_WIRINGS: "length ROTOR_WIRINGS = 4"
  by (simp add: ROTOR_WIRINGS_def)

lemma mod26_nat: "int (nat (a mod 26)) = a mod 26" "nat (a mod 26) < 26"
  by simp_all

lemma enc_forward:
  assumes "rotors st = ROTOR_WIRINGS" and "r < 4"
  shows "encode_through_rotor k r p 0 st
           = Some ((wiring_table r ! nat ((k + p) mod 26) - p) mod 26)"
proof -
  let ?i = "nat ((k + p) mod 26)"
  from forward_lookup [OF assms(2) mod26_nat(2) [of "k + p"]]
  obtain w where w: "rd (ROTOR_WIRINGS ! r) ((k + p) mod 26) = Some w"
    and j: "idx ALPHABET (of_char w) = Some (wiring_table r ! ?i)"
    by (auto simp: bind_eq_Some_conv)
  show ?thesis
    using assms w j
    by (simp add: encode_through_rotor_def mod_positive_eq length_ROTOR_WIRINGS)
qed

lemma enc_reverse:
  assumes "rotors st = ROTOR_WIRINGS" and "r < 4" and "d \<noteq> 0"
  shows "encode_through_rotor k r p d st
           = Some ((inverse_table (wiring_table r) ! nat ((k + p) mod 26) - p) mod 26)"
proof -
  let ?i = "nat ((k + p) mod 26)"
  from reverse_lookup [OF assms(2) mod26_nat(2) [of "k + p"]]
  obtain w where w: "rd ALPHABET ((k + p) mod 26) = Some w"
    and j: "idx (ROTOR_WIRINGS ! r) (of_char w) = Some (inverse_table (wiring_table r) ! ?i)"
    by (auto simp: bind_eq_Some_conv)
  show ?thesis
    using assms w j
    by (simp add: encode_through_rotor_def mod_positive_eq length_ROTOR_WIRINGS)
qed

lemma unshift: "0 \<le> y \<Longrightarrow> y < 26 \<Longrightarrow> ((y - p) mod 26 + p) mod 26 = (y::int)"
  by (simp add: mod_add_left_eq)

lemma reshift: "0 \<le> k \<Longrightarrow> k < 26 \<Longrightarrow> ((k + p) mod 26 - p) mod 26 = (k::int)"
  by (simp add: mod_diff_left_eq)

lemma reverse_forward:
  assumes "rotors st = ROTOR_WIRINGS" and "r < 4" and "d \<noteq> 0" and "0 \<le> k" and "k < 26"
  shows "encode_through_rotor k r p 0 st \<bind> (\<lambda>y. encode_through_rotor y r p d st) = Some k"
proof -
  let ?i = "nat ((k + p) mod 26)"
  let ?y = "wiring_table r ! ?i"
  have i: "?i < 26" by simp
  from wiring_range(1) [OF assms(2) i] have y: "0 \<le> ?y" "?y < 26" by simp_all
  have "inverse_table (wiring_table r) ! nat ((((?y - p) mod 26) + p) mod 26) = int ?i"
    using wiring_inverse(1) [OF assms(2) i] y by (simp only: unshift)
  then show ?thesis
    using assms by (simp add: enc_forward enc_reverse reshift)
qed

lemma forward_reverse:
  assumes "rotors st = ROTOR_WIRINGS" and "r < 4" and "d \<noteq> 0" and "0 \<le> k" and "k < 26"
  shows "encode_through_rotor k r p d st \<bind> (\<lambda>y. encode_through_rotor y r p 0 st) = Some k"
proof -
  let ?i = "nat ((k + p) mod 26)"
  let ?y = "inverse_table (wiring_table r) ! ?i"
  have i: "?i < 26" by simp
  from wiring_range(2) [OF assms(2) i] have y: "0 \<le> ?y" "?y < 26" by simp_all
  have "wiring_table r ! nat ((((?y - p) mod 26) + p) mod 26) = int ?i"
    using wiring_inverse(2) [OF assms(2) i] y by (simp only: unshift)
  then show ?thesis
    using assms by (simp add: enc_forward enc_reverse reshift)
qed

lemma enc_range:
  assumes "rotors st = ROTOR_WIRINGS" and "r < 4"
  shows "\<exists>y. encode_through_rotor k r p d st = Some y \<and> 0 \<le> y \<and> y < 26"
  using assms by (cases "d = 0") (simp_all add: enc_forward enc_reverse)

lemma idx_loop_from:
  "idx_loop s c p = Some j \<Longrightarrow> j = - 1 \<or> p \<le> j"
proof (induction s c p rule: idx_loop.induct)
  case (1 s c p)
  show ?case
  proof (cases "rd s p")
    case None
    with "1.prems" show ?thesis by simp
  next
    case (Some x)
    show ?thesis
    proof (cases "x = NUL \<or> of_char x = c")
      case True
      with Some "1.prems" show ?thesis by (auto split: if_splits)
    next
      case False
      with Some "1.prems" have "idx_loop s c (p + 1) = Some j" by simp
      with "1.IH" [OF Some] False show ?thesis by auto
    qed
  qed
qed

lemma rd_take: "i < int n \<Longrightarrow> rd (take n s) i = rd s i"
  by (auto simp: rd_def)

lemma idx_loop_take:
  "idx_loop s c p = Some j \<Longrightarrow> 0 \<le> j \<Longrightarrow> j < int n \<Longrightarrow> idx_loop (take n s) c p = Some j"
proof (induction s c p rule: idx_loop.induct)
  case (1 s c p)
  from idx_loop_from [OF "1.prems"(1)] "1.prems"(2,3) have p: "p < int n" by auto
  show ?case
  proof (cases "rd s p")
    case None
    with "1.prems" show ?thesis by simp
  next
    case (Some x)
    with p have t: "rd (take n s) p = Some x" by (simp add: rd_take)
    show ?thesis
    proof (cases "x = NUL \<or> of_char x = c")
      case True
      with Some t "1.prems" show ?thesis by (auto split: if_splits)
    next
      case False
      with Some "1.prems" have "idx_loop s c (p + 1) = Some j" by simp
      with "1.IH" [OF Some] False "1.prems" have "idx_loop (take n s) c (p + 1) = Some j" by auto
      with t False show ?thesis by simp
    qed
  qed
qed

text \<open>
  C5. With the wirings as initialised, for \<open>k\<close> and the position in 0..25 and a rotor
  index in 0..3, \<open>encode_through_rotor\<close> returns \<open>(W[(k + p) mod 26] - p) mod 26\<close> in
  the forward direction and \<open>(W\<^sup>-\<^sup>1[(k + p) mod 26] - p) mod 26\<close> in the reverse
  direction, where \<open>W\<close> is the rotor's wiring table and \<open>W\<^sup>-\<^sup>1\<close> its inverse
  permutation; \<open>mod\<close> is the non-negative residue, so both results are in 0..25.
\<close>

theorem encode_through_rotor_formula:
  assumes "rotors state = rotors init_enigma"
    and "0 \<le> k" and "k \<le> 25"
    and "rotor_index \<le> 3"
    and "0 \<le> position" and "position \<le> 25"
    and "direction \<noteq> 0"
  shows "(let W = wiring_table rotor_index; W_inv = inverse_table W;
              fwd = (W ! nat ((k + position) mod 26) - position) mod 26;
              rev = (W_inv ! nat ((k + position) mod 26) - position) mod 26
          in encode_through_rotor k rotor_index position 0 state = Some fwd \<and>
             encode_through_rotor k rotor_index position direction state = Some rev \<and>
             0 \<le> fwd \<and> fwd \<le> 25 \<and> 0 \<le> rev \<and> rev \<le> 25 \<and>
             (\<forall>i<26. W_inv ! nat (W ! i) = int i \<and> W ! nat (W_inv ! i) = int i))"
proof -
  from assms(1) have st: "rotors state = ROTOR_WIRINGS" by (simp add: rotors_init)
  from assms(4) have r: "rotor_index < 4" by simp
  have b: "x mod 26 \<le> 25" for x :: int
    using pos_mod_bound [of 26 x] by linarith
  show ?thesis
    unfolding Let_def
    using enc_forward [OF st r] enc_reverse [OF st r assms(7)]
      wiring_inverse [OF r] b
    by simp
qed

theorem encode_through_rotor_formula_witness:
  "rotors init_enigma = rotors init_enigma \<and> (0::int) \<le> 7 \<and> (7::int) \<le> 25 \<and> (2::nat) \<le> 3 \<and>
   (0::int) \<le> 25 \<and> (25::int) \<le> 25 \<and> (1::int) \<noteq> 0 \<and>
   encode_through_rotor 7 2 25 0 init_enigma = Some 3 \<and>
   encode_through_rotor 7 2 25 1 init_enigma = Some 19"
proof -
  have f: "(wiring_table 2 ! nat ((7 + 25) mod 26) - 25) mod 26 = 3"
    by code_simp
  have r: "(inverse_table (wiring_table 2) ! nat ((7 + 25) mod 26) - 25) mod 26 = 19"
    by code_simp
  from encode_through_rotor_formula [of init_enigma 7 2 25 1]
  have "encode_through_rotor 7 2 25 0 init_enigma
          = Some ((wiring_table 2 ! nat ((7 + 25) mod 26) - 25) mod 26) \<and>
        encode_through_rotor 7 2 25 1 init_enigma
          = Some ((inverse_table (wiring_table 2) ! nat ((7 + 25) mod 26) - 25) mod 26)"
    unfolding Let_def by simp
  then show ?thesis
    by (simp only: f r) simp
qed

text \<open>
  C9. With the wirings as initialised, for \<open>k\<close> and the position in 0..25, a rotor index
  in 0..3 and either direction: the index \<open>i\<close> at which the wiring and the alphabet are
  read is in 0..25; both \<open>idx\<close> lookups find their character, at an offset in 0..25 and so
  never \<open>-1\<close>; the same reads and lookups succeed on the first 26 bytes of each array
  alone, so no byte at an index above 25 is read; and the returned value is in 0..25.
\<close>

theorem encode_through_rotor_in_bounds:
  assumes "rotors state = rotors init_enigma"
    and "0 \<le> k" and "k \<le> 25"
    and "rotor_index \<le> 3"
    and "0 \<le> position" and "position \<le> 25"
  shows "(let i = mod_positive (k + position); wiring = rotors state ! rotor_index
          in 0 \<le> i \<and> i \<le> 25 \<and>
             (\<exists>w j. rd (take 26 wiring) i = Some w \<and> rd wiring i = Some w \<and>
                    idx (take 26 ALPHABET) (of_char w) = Some j \<and>
                    idx ALPHABET (of_char w) = Some j \<and> j \<noteq> - 1 \<and> 0 \<le> j \<and> j \<le> 25) \<and>
             (\<exists>a j. rd (take 26 ALPHABET) i = Some a \<and> rd ALPHABET i = Some a \<and>
                    idx (take 26 wiring) (of_char a) = Some j \<and>
                    idx wiring (of_char a) = Some j \<and> j \<noteq> - 1 \<and> 0 \<le> j \<and> j \<le> 25) \<and>
             (\<exists>y. encode_through_rotor k rotor_index position direction state = Some y \<and>
                  0 \<le> y \<and> y \<le> 25))"
proof -
  from assms(1) have st: "rotors state = ROTOR_WIRINGS" by (simp add: rotors_init)
  from assms(4) have r: "rotor_index < 4" by simp
  let ?i = "(k + position) mod 26"
  let ?n = "nat ?i"
  have n: "?n < 26" and i: "0 \<le> ?i" "?i \<le> 25" "?i < int 26" by simp_all
  from forward_lookup [OF r n]
  obtain w where w: "rd (ROTOR_WIRINGS ! rotor_index) ?i = Some w"
    and j: "idx ALPHABET (of_char w) = Some (wiring_table rotor_index ! ?n)"
    by (auto simp: bind_eq_Some_conv)
  from wiring_range(1) [OF r n]
  have jr: "0 \<le> wiring_table rotor_index ! ?n" "wiring_table rotor_index ! ?n < int 26" by simp_all
  from idx_loop_take [OF j [unfolded idx_def] jr]
  have jt: "idx (take 26 ALPHABET) (of_char w) = Some (wiring_table rotor_index ! ?n)"
    by (simp add: idx_def)
  from reverse_lookup [OF r n]
  obtain a where a: "rd ALPHABET ?i = Some a"
    and l: "idx (ROTOR_WIRINGS ! rotor_index) (of_char a)
              = Some (inverse_table (wiring_table rotor_index) ! ?n)"
    by (auto simp: bind_eq_Some_conv)
  from wiring_range(2) [OF r n]
  have lr: "0 \<le> inverse_table (wiring_table rotor_index) ! ?n"
    "inverse_table (wiring_table rotor_index) ! ?n < int 26" by simp_all
  from idx_loop_take [OF l [unfolded idx_def] lr]
  have lt: "idx (take 26 (ROTOR_WIRINGS ! rotor_index)) (of_char a)
              = Some (inverse_table (wiring_table rotor_index) ! ?n)"
    by (simp add: idx_def)
  from enc_range [OF st r, of k position direction]
  obtain y where y: "encode_through_rotor k rotor_index position direction state = Some y"
    "0 \<le> y" "y \<le> 25" by auto
  have wt: "rd (take 26 (ROTOR_WIRINGS ! rotor_index)) ?i = Some w"
    using w rd_take [OF i(3)] by simp
  have at: "rd (take 26 ALPHABET) ?i = Some a"
    using a rd_take [OF i(3)] by simp
  show ?thesis
    unfolding Let_def mod_positive_eq st
    using i(1,2) w wt j jt jr a at l lt lr y by simp
qed

theorem encode_through_rotor_in_bounds_witness:
  "rotors init_enigma = rotors init_enigma \<and> (0::int) \<le> 7 \<and> (7::int) \<le> 25 \<and> (2::nat) \<le> 3 \<and>
   (0::int) \<le> 25 \<and> (25::int) \<le> 25 \<and>
   mod_positive (7 + 25) = 6 \<and>
   (\<exists>y. encode_through_rotor 7 2 25 1 init_enigma = Some y \<and> 0 \<le> y \<and> y \<le> 25)"
proof -
  have m: "mod_positive (7 + 25) = 6" by (simp add: mod_positive_eq)
  from encode_through_rotor_in_bounds [of init_enigma 7 2 25 1]
  have "\<exists>y. encode_through_rotor 7 2 25 1 init_enigma = Some y \<and> 0 \<le> y \<and> y \<le> 25"
    unfolding Let_def by simp
  with m show ?thesis by simp
qed

section \<open>Stepping and configuration on concrete inputs\<close>

text \<open>
  What \<open>step_rotors\<close> does to the three positions (right, middle, left) with the
  notches as initialised: the right rotor always advances, the middle rotor advances when
  it is at 4 or the right rotor is at 16, the left rotor advances when the middle rotor is
  at 4.
\<close>

lemma step_rotors_effect:
  assumes "positions st = [r, m, l]" and "notch_positions st = [16, 4, 21]"
  shows "positions (step_rotors st)
           = [(r + 1) mod 26,
              if m = 4 \<or> r = 16 then (m + 1) mod 26 else m,
              if m = 4 then (l + 1) mod 26 else l]"
  using assms by (simp add: step_rotors_def Let_def mod_positive_eq)

lemma step_rotors_in_range:
  assumes "positions st = [r, m, l]" and "notch_positions st = [16, 4, 21]"
    and "0 \<le> r \<and> r \<le> 25" and "0 \<le> m \<and> m \<le> 25" and "0 \<le> l \<and> l \<le> 25"
  shows "\<forall>p\<in>set (positions (step_rotors st)). 0 \<le> p \<and> p \<le> 25"
proof -
  have b: "0 \<le> x mod 26 \<and> x mod 26 \<le> 25" for x :: int
    using pos_mod_bound [of 26 x] pos_mod_sign [of 26 x] by simp
  from assms(3-5) b show ?thesis
    by (simp add: step_rotors_effect [OF assms(1,2)])
qed

text \<open>
  C1. The right slot holds rotor III (\<open>run_enigma\<close> encodes with wiring index 2 at
  \<open>positions[0]\<close>), whose notch is V = 21 by \<open>NOTCH_POSITIONS_INIT\<close>. \<open>step_rotors\<close>
  compares \<open>positions[0]\<close> with \<open>notch_positions[0]\<close> = 16: from right position V the
  middle rotor stays where it is, and from right position Q it advances.
\<close>

theorem step_rotors_right_notch:
  "notch_positions init_enigma = [16, 4, 21] \<and>
   set_rotor_positions init_enigma (Some ''AAV'') = Inr (init_enigma\<lparr>positions := [21, 0, 0]\<rparr>) \<and>
   positions (step_rotors (init_enigma\<lparr>positions := [21, 0, 0]\<rparr>)) = [22, 0, 0] \<and>
   set_rotor_positions init_enigma (Some ''AAQ'') = Inr (init_enigma\<lparr>positions := [16, 0, 0]\<rparr>) \<and>
   positions (step_rotors (init_enigma\<lparr>positions := [16, 0, 0]\<rparr>)) = [17, 1, 0]"
  by code_simp

text \<open>
  C8. \<open>set_rotor_positions\<close> accepts the lower-case string \<open>abc\<close> and stores
  \<open>'c' - 'A'\<close>, \<open>'b' - 'A'\<close>, \<open>'a' - 'A'\<close>, that is 34, 33, 32: positions outside 0..25.
  \<open>step_rotors\<close> then brings only the rotor that steps back into the range.
\<close>

theorem set_rotor_positions_lower_case:
  "set_rotor_positions init_enigma (Some ''abc'') = Inr (init_enigma\<lparr>positions := [34, 33, 32]\<rparr>) \<and>
   positions (step_rotors (init_enigma\<lparr>positions := [34, 33, 32]\<rparr>)) = [9, 33, 32]"
  by code_simp

text \<open>
  C10. \<open>set_plugboard\<close> stores the one-character string \<open>A\<close>, terminator at offset 1;
  on the character \<open>X\<close> the scan of \<open>apply_plugboard\<close> moves its pointer to offset 2,
  past the terminator, and reads there. With a stored string of 255 characters without
  spaces the pointer reaches offset 256 and the read is outside the plugboard array.
\<close>

theorem apply_plugboard_past_terminator:
  "set_plugboard init_enigma (Some ''A'')
     = Inr (init_enigma\<lparr>plugboard := ''A'' @ replicate 255 NUL\<rparr>) \<and>
   strlen (''A'' @ replicate 255 NUL) = 1 \<and>
   plug_loop (CHR ''X'') (''A'' @ replicate 255 NUL) 0 = Some (2, CHR ''X'') \<and>
   set_plugboard init_enigma (Some (replicate 255 (CHR ''A'')))
     = Inr (init_enigma\<lparr>plugboard := replicate 255 (CHR ''A'') @ [NUL]\<rparr>) \<and>
   length (replicate 255 (CHR ''A'') @ [NUL]) = MAX_PLUGBOARD_LEN \<and>
   apply_plugboard (CHR ''X'') (replicate 255 (CHR ''A'') @ [NUL]) = None"
  by code_simp

section \<open>Bytes that are not letters\<close>

lemma to_upper_outside:
  "to_upper c < 65 \<or> to_upper c > 90 \<Longrightarrow> to_upper c = c"
  by (auto simp: to_upper_def split: if_splits)

text \<open>
  C7. For a byte \<open>b\<close> that is not in A..Z after the folding of lower case, one iteration
  of the loop writes \<open>b\<close> itself and leaves the whole state (positions, wirings, notches,
  plugboard) as it was; the loop goes on from that same state.
\<close>

theorem non_letter_pass_through:
  assumes "to_upper (of_char b) < 65 \<or> to_upper (of_char b) > 90"
  shows "loop_body state b = Some (state, b) \<and>
         run_enigma state (b # bs)
           = map_option (\<lambda>(state', outs). (state', b # outs)) (run_enigma state bs)"
proof -
  from to_upper_outside [OF assms] have "char_of (to_upper (of_char b)) = b" by simp
  with assms have "loop_body state b = Some (state, b)"
    by (simp add: loop_body_def Let_def)
  then show ?thesis by simp
qed

theorem non_letter_pass_through_witness:
  "(to_upper (of_char (CHR ''5'')) < 65 \<or> to_upper (of_char (CHR ''5'')) > 90) \<and>
   loop_body init_enigma (CHR ''5'') = Some (init_enigma, CHR ''5'')"
proof -
  have h: "to_upper (of_char (CHR ''5'')) < 65 \<or> to_upper (of_char (CHR ''5'')) > 90"
    by (simp add: to_upper_def)
  from non_letter_pass_through [OF h] h show ?thesis by simp
qed

section \<open>What \<open>set_plugboard\<close> rejects\<close>

text \<open>
  C3, as the claim states it, fails: the string \<open>AA\<close>, a letter paired with itself, is
  accepted and installed, and enciphering goes on with it.
\<close>

theorem set_plugboard_accepts_self_pair:
  "set_plugboard init_enigma (Some ''AA'')
     = Inr (init_enigma\<lparr>plugboard := ''AA'' @ replicate 254 NUL\<rparr>) \<and>
   map_option snd (run_enigma (init_enigma\<lparr>plugboard := ''AA'' @ replicate 254 NUL\<rparr>) ''ABC'')
     = Some ''BJE''"
  by code_simp

lemma content_append_NUL:
  "NUL \<notin> set s \<Longrightarrow> takeWhile (\<lambda>x. x \<noteq> NUL) (s @ NUL # t) = s"
  by (induction s) auto

lemma upper_char_NUL: "upper_char x = NUL \<longleftrightarrow> x = NUL"
proof
  assume "upper_char x = NUL"
  then show "x = NUL"
    by (auto simp: upper_char_def NUL_def char_of_eq_iff take_bit_eq_mod split: if_splits)
next
  assume "x = NUL"
  then show "upper_char x = NUL"
    by (simp add: upper_char_def NUL_def)
qed

text \<open>
  C3, amended. \<open>set_plugboard\<close> rejects a string exactly when it has more than 255
  characters, and then installs nothing: the program exits. Every string of at most 255
  characters is accepted, whatever its tokens, and installed with its lower-case letters
  folded to upper case.
\<close>

theorem set_plugboard_rejects_only_long:
  "(length cfg > 255 \<longrightarrow> set_plugboard state (Some cfg) = Inl PlugboardTooLong) \<and>
   (length cfg \<le> 255 \<and> NUL \<notin> set cfg \<longrightarrow>
      (\<exists>s. set_plugboard state (Some cfg) = Inr s \<and>
           content (plugboard s) = map upper_char cfg \<and>
           positions s = positions state \<and> rotors s = rotors state \<and>
           notch_positions s = notch_positions state))"
proof (intro conjI impI)
  assume "length cfg > 255"
  then show "set_plugboard state (Some cfg) = Inl PlugboardTooLong"
    by (simp add: set_plugboard_def MAX_PLUGBOARD_LEN_def)
next
  assume a: "length cfg \<le> 255 \<and> NUL \<notin> set cfg"
  let ?pb = "SAFE_STRCPY (plugboard state) cfg"
  from a have n: "strlen ?pb = length cfg"
    by (simp add: strlen_def SAFE_STRCPY_def content_append_NUL)
  have up: "NUL \<notin> set (map upper_char cfg)"
  proof
    assume "NUL \<in> set (map upper_char cfg)"
    then obtain x where "x \<in> set cfg" and "upper_char x = NUL" by auto
    with a show False by (simp add: upper_char_NUL)
  qed
  have "map upper_char (take (length cfg) ?pb) @ drop (length cfg) ?pb
          = map upper_char cfg @ NUL # drop (length cfg + 1) (plugboard state)"
    by (simp add: SAFE_STRCPY_def)
  then have "content (map upper_char (take (strlen ?pb) ?pb) @ drop (strlen ?pb) ?pb)
          = map upper_char cfg"
    using up by (simp add: n content_def content_append_NUL)
  with a show "\<exists>s. set_plugboard state (Some cfg) = Inr s \<and>
           content (plugboard s) = map upper_char cfg \<and>
           positions s = positions state \<and> rotors s = rotors state \<and>
           notch_positions s = notch_positions state"
    by (simp add: set_plugboard_def MAX_PLUGBOARD_LEN_def Let_def)
qed

theorem set_plugboard_rejects_only_long_witness:
  "length (replicate 256 (CHR ''A'')) > 255 \<and>
   set_plugboard init_enigma (Some (replicate 256 (CHR ''A''))) = Inl PlugboardTooLong \<and>
   length ''ab cd'' \<le> 255 \<and> NUL \<notin> set ''ab cd'' \<and>
   (\<exists>s. set_plugboard init_enigma (Some ''ab cd'') = Inr s \<and> content (plugboard s) = ''AB CD'')"
proof -
  have h: "length ''ab cd'' \<le> 255 \<and> NUL \<notin> set ''ab cd''"
    by (simp add: NUL_def)
  have u: "map upper_char ''ab cd'' = ''AB CD''"
    by code_simp
  from set_plugboard_rejects_only_long [of "replicate 256 (CHR ''A'')" init_enigma]
  have "set_plugboard init_enigma (Some (replicate 256 (CHR ''A''))) = Inl PlugboardTooLong"
    by simp
  moreover from set_plugboard_rejects_only_long [of "''ab cd''" init_enigma] h
  have "\<exists>s. set_plugboard init_enigma (Some ''ab cd'') = Inr s \<and>
             content (plugboard s) = map upper_char ''ab cd''"
    by blast
  ultimately show ?thesis
    using h by (simp only: u) simp
qed

section \<open>The plugboard scan on well-formed plugboards\<close>

lemma rd_drop: "0 \<le> p \<Longrightarrow> drop (nat p) pb = x # xs \<Longrightarrow> rd pb p = Some x"
proof -
  assume p: "0 \<le> p" and d: "drop (nat p) pb = x # xs"
  from d have "nat p < length pb"
    by (metis drop_all list.distinct(1) not_le)
  moreover from d have "pb ! nat p = x" by (rule nth_via_drop)
  ultimately show ?thesis using p by (simp add: rd_def)
qed

lemma drop_next: "0 \<le> p \<Longrightarrow> drop (nat p) pb = x # xs \<Longrightarrow> drop (nat (p + 1)) pb = xs"
proof -
  assume p: "0 \<le> p" and d: "drop (nat p) pb = x # xs"
  from p have "nat (p + 1) = Suc (nat p)" by simp
  then have "drop (nat (p + 1)) pb = tl (drop (nat p) pb)"
    by (simp add: drop_Suc tl_drop)
  with d show ?thesis by simp
qed

lemma drop_more:
  "0 \<le> p \<Longrightarrow> drop (nat p) pb = u @ v \<Longrightarrow> drop (nat (p + int (length u))) pb = v"
proof -
  assume p: "0 \<le> p" and d: "drop (nat p) pb = u @ v"
  from p have "nat (p + int (length u)) = length u + nat p" by simp
  then have "drop (nat (p + int (length u))) pb = drop (length u) (drop (nat p) pb)"
    by simp
  with d show ?thesis by simp
qed

lemma skip_spaces_drop:
  "0 \<le> p \<Longrightarrow> drop (nat p) pb = u @ x # xs \<Longrightarrow> x \<noteq> SPACE \<Longrightarrow> \<forall>y\<in>set u. y = SPACE
     \<Longrightarrow> skip_spaces pb p = Some (p + int (length u))"
proof (induction u arbitrary: p)
  case Nil
  then have "rd pb p = Some x" by (simp add: rd_drop)
  with Nil show ?case by (subst skip_spaces.simps) simp
next
  case (Cons y u)
  from Cons.prems have r: "rd pb p = Some SPACE" by (simp add: rd_drop)
  from Cons.prems have "drop (nat (p + 1)) pb = u @ x # xs"
    using drop_next [of p pb y "u @ x # xs"] by simp
  with Cons.IH [of "p + 1"] Cons.prems
  have "skip_spaces pb (p + 1) = Some (p + 1 + int (length u))" by simp
  with r show ?case by (subst skip_spaces.simps) simp
qed

lemma upper_letter_plain: "is_upper_letter a \<Longrightarrow> a \<noteq> NUL \<and> a \<noteq> SPACE"
  by (auto simp: is_upper_letter_def NUL_def SPACE_def)

lemma plug_loop_layout:
  "pairs_layout t \<Longrightarrow> 0 \<le> p \<Longrightarrow> drop (nat p) pb = t @ NUL # rest
     \<Longrightarrow> \<exists>q. plug_loop c pb p = Some (q, swap_of t c) \<and> p \<le> q \<and> q \<le> p + int (length t)"
proof (induction t arbitrary: p rule: pairs_layout.induct)
  case 1
  then have "rd pb p = Some NUL" by (simp add: rd_drop)
  then show ?case by (subst plug_loop.simps) simp
next
  case (2 a)
  then show ?case by simp
next
  case (3 a b r)
  let ?sp = "\<lambda>x. x = SPACE"
  let ?u = "takeWhile ?sp r"
  let ?v = "dropWhile ?sp r"
  from "3.prems"(1) have a: "a \<noteq> NUL" and b: "b \<noteq> NUL" and lay: "pairs_layout ?v"
    by (simp_all add: upper_letter_plain)
  from "3.prems" have ra: "rd pb p = Some a" by (simp add: rd_drop)
  from "3.prems" have d1: "drop (nat (p + 1)) pb = b # r @ NUL # rest"
    using drop_next [of p pb a] by simp
  with "3.prems" have rb: "rd pb (p + 1) = Some b" by (simp add: rd_drop)
  from d1 "3.prems"(2) have d2: "drop (nat (p + 2)) pb = r @ NUL # rest"
    using drop_next [of "p + 1" pb b] by (simp add: add.assoc)
  show ?case
  proof (cases "c = a \<or> c = b")
    case True
    with ra rb a b show ?thesis
      by (subst plug_loop.simps) auto
  next
    case False
    have split: "r @ NUL # rest = ?u @ (?v @ NUL # rest)" by simp
    obtain x xs where x: "?v @ NUL # rest = x # xs" and xs: "x \<noteq> SPACE"
    proof (cases ?v)
      case Nil
      then show ?thesis using that [of NUL rest] by (simp add: NUL_def SPACE_def)
    next
      case (Cons y ys)
      then have "\<not> ?sp y" using hd_dropWhile [of ?sp r] by (metis list.distinct(1) list.sel(1))
      with Cons show ?thesis using that [of y "ys @ NUL # rest"] by simp
    qed
    have u: "\<forall>y\<in>set ?u. y = SPACE"
      by (auto dest: set_takeWhileD)
    from "3.prems"(2) have p2: "0 \<le> p + 2" by simp
    from d2 split x have d2': "drop (nat (p + 2)) pb = ?u @ x # xs" by simp
    from skip_spaces_drop [OF p2 d2' xs u]
    have sk: "skip_spaces pb (p + 2) = Some (p + 2 + int (length ?u))" .
    from d2 split have "drop (nat (p + 2)) pb = ?u @ (?v @ NUL # rest)" by simp
    from drop_more [OF p2 this]
    have d3: "drop (nat (p + 2 + int (length ?u))) pb = ?v @ NUL # rest" .
    have p3: "0 \<le> p + 2 + int (length ?u)" using "3.prems"(2) by simp
    from "3.IH" [OF lay p3 d3]
    obtain q where q: "plug_loop c pb (p + 2 + int (length ?u)) = Some (q, swap_of ?v c)"
      and q1: "p + 2 + int (length ?u) \<le> q" and q2: "q \<le> p + 2 + int (length ?u) + int (length ?v)"
      by blast
    have "length (?u @ ?v) = length r"
      by (simp only: takeWhile_dropWhile_id)
    then have len: "length ?u + length ?v = length r"
      by (simp only: length_append)
    have "plug_loop c pb p = Some (q, swap_of ?v c)"
      using ra rb a b False sk q by (subst plug_loop.simps) simp
    moreover have "swap_of (a # b # r) c = swap_of ?v c"
      using False by simp
    moreover have "p \<le> q" using q1 by simp
    moreover have "q \<le> p + int (length (a # b # r))" using q2 len by simp
    ultimately show ?thesis by simp
  qed
qed

lemma filter_dropWhile_spaces:
  "filter (\<lambda>x. x \<noteq> SPACE) (dropWhile (\<lambda>x. x = SPACE) r) = filter (\<lambda>x. x \<noteq> SPACE) r"
  by (induction r) auto

lemma swap_of_cases:
  "pairs_layout t \<Longrightarrow>
     swap_of t c = c \<or> swap_of t c \<in> set (filter (\<lambda>x. x \<noteq> SPACE) t) \<and> is_upper_letter (swap_of t c)"
proof (induction t rule: pairs_layout.induct)
  case 1
  show ?case by simp
next
  case (2 a)
  show ?case by simp
next
  case (3 a b r)
  then have IH: "swap_of (dropWhile (\<lambda>x. x = SPACE) r) c = c \<or>
      swap_of (dropWhile (\<lambda>x. x = SPACE) r) c \<in> set (filter (\<lambda>x. x \<noteq> SPACE) r) \<and>
      is_upper_letter (swap_of (dropWhile (\<lambda>x. x = SPACE) r) c)"
    by (simp add: filter_dropWhile_spaces)
  from "3.prems" have "is_upper_letter a" "is_upper_letter b" by simp_all
  with IH show ?case
    by (auto simp: upper_letter_plain)
qed

lemma swap_of_involution:
  "pairs_layout t \<Longrightarrow> distinct (filter (\<lambda>x. x \<noteq> SPACE) t) \<Longrightarrow> swap_of t (swap_of t c) = c"
proof (induction t rule: pairs_layout.induct)
  case 1
  show ?case by simp
next
  case (2 a)
  show ?case by simp
next
  case (3 a b r)
  let ?v = "dropWhile (\<lambda>x. x = SPACE) r"
  from "3.prems"(1) have ab: "a \<noteq> SPACE" "b \<noteq> SPACE" and lay: "pairs_layout ?v"
    by (simp_all add: upper_letter_plain)
  from "3.prems"(2) ab have ne: "a \<noteq> b"
    and na: "a \<notin> set (filter (\<lambda>x. x \<noteq> SPACE) r)"
    and nb: "b \<notin> set (filter (\<lambda>x. x \<noteq> SPACE) r)"
    and di: "distinct (filter (\<lambda>x. x \<noteq> SPACE) ?v)"
    by (auto simp: filter_dropWhile_spaces)
  show ?case
  proof (cases "c = a \<or> c = b")
    case True
    with ne show ?thesis by auto
  next
    case False
    from swap_of_cases [OF lay, of c] na nb False
    have "swap_of ?v c \<noteq> a" "swap_of ?v c \<noteq> b"
      by (auto simp: filter_dropWhile_spaces)
    with False "3.IH" [OF lay di] show ?thesis by simp
  qed
qed

lemma array_content:
  assumes "length (content pb) < length pb"
  shows "\<exists>rest. pb = content pb @ NUL # rest"
proof -
  let ?P = "\<lambda>x. x \<noteq> NUL"
  have "length (takeWhile ?P pb @ dropWhile ?P pb) = length pb"
    by (simp only: takeWhile_dropWhile_id)
  then have sum: "length (takeWhile ?P pb) + length (dropWhile ?P pb) = length pb"
    by (simp only: length_append)
  have ne: "dropWhile ?P pb \<noteq> []"
  proof
    assume "dropWhile ?P pb = []"
    with sum have "length (takeWhile ?P pb) = length pb"
      by (simp only: list.size add_0_right)
    with assms show False by (simp add: content_def)
  qed
  then have "\<not> ?P (hd (dropWhile ?P pb))" by (rule hd_dropWhile)
  with ne obtain rest where "dropWhile ?P pb = NUL # rest"
    by (cases "dropWhile ?P pb") auto
  with takeWhile_dropWhile_id [of ?P pb] have "pb = content pb @ NUL # rest"
    by (simp add: content_def)
  then show ?thesis ..
qed

lemma apply_plugboard_ok:
  assumes "plugboard_ok pb"
  shows "apply_plugboard c pb = Some (swap_of (content pb) c)"
proof -
  from assms have lay: "pairs_layout (content pb)" and len: "length (content pb) < length pb"
    by (simp_all add: plugboard_ok_def)
  from array_content [OF len] obtain rest where pb: "pb = content pb @ NUL # rest" ..
  then have d: "drop (nat 0) pb = content pb @ NUL # rest" by simp
  from plug_loop_layout [OF lay _ d, of c]
  obtain q where q: "plug_loop c pb 0 = Some (q, swap_of (content pb) c)" by auto
  show ?thesis
  proof (cases "content pb")
    case Nil
    with d have "rd pb 0 = Some NUL" using rd_drop [of 0 pb NUL rest] by simp
    with Nil show ?thesis by (simp add: apply_plugboard_def)
  next
    case (Cons a t)
    with d have r: "rd pb 0 = Some a" using rd_drop [of 0 pb a "t @ NUL # rest"] by simp
    from Cons lay have "a \<noteq> NUL"
      by (cases t) (simp_all add: upper_letter_plain)
    with r q show ?thesis by (simp add: apply_plugboard_def)
  qed
qed

lemma apply_plugboard_letter:
  assumes "plugboard_ok pb" and "is_upper_letter c"
  shows "\<exists>d. apply_plugboard c pb = Some d \<and> is_upper_letter d \<and> apply_plugboard d pb = Some c"
proof -
  from assms(1) have lay: "pairs_layout (content pb)"
    and di: "distinct (filter (\<lambda>x. x \<noteq> SPACE) (content pb))"
    by (simp_all add: plugboard_ok_def)
  let ?d = "swap_of (content pb) c"
  from swap_of_cases [OF lay, of c] assms(2) have "is_upper_letter ?d" by auto
  moreover have "apply_plugboard ?d pb = Some c"
    using apply_plugboard_ok [OF assms(1)] swap_of_involution [OF lay di] by simp
  ultimately show ?thesis
    using apply_plugboard_ok [OF assms(1)] by simp
qed

section \<open>The substitution of one letter\<close>

lemma rotor_pair_forward:
  assumes "rotors st = ROTOR_WIRINGS" and "r < 4" and "0 \<le> k" and "k < 26"
  shows "\<exists>y. encode_through_rotor k r p 0 st = Some y \<and> 0 \<le> y \<and> y < 26 \<and>
             encode_through_rotor y r p 1 st = Some k"
proof -
  from enc_range [OF assms(1,2), of k p 0]
  obtain y where y: "encode_through_rotor k r p 0 st = Some y" "0 \<le> y" "y < 26" by blast
  from reverse_forward [OF assms(1,2) _ assms(3,4), of 1 p] y(1)
  have "encode_through_rotor y r p 1 st = Some k" by simp
  with y show ?thesis by blast
qed

lemma rotor_pair_reverse:
  assumes "rotors st = ROTOR_WIRINGS" and "r < 4" and "0 \<le> k" and "k < 26"
  shows "\<exists>y. encode_through_rotor k r p 1 st = Some y \<and> 0 \<le> y \<and> y < 26 \<and>
             encode_through_rotor y r p 0 st = Some k"
proof -
  from enc_range [OF assms(1,2), of k p 1]
  obtain y where y: "encode_through_rotor k r p 1 st = Some y" "0 \<le> y" "y < 26" by blast
  from forward_reverse [OF assms(1,2) _ assms(3,4), of 1 p] y(1)
  have "encode_through_rotor y r p 0 st = Some k" by simp
  with y show ?thesis by blast
qed

lemma reflector_pair:
  assumes "rotors st = ROTOR_WIRINGS" and "0 \<le> d" and "d < 26"
  shows "\<exists>e. rd (rotors st ! 3) d \<bind> (\<lambda>w. idx ALPHABET (of_char w)) = Some e \<and>
             0 \<le> e \<and> e < 26 \<and> e \<noteq> d \<and>
             rd (rotors st ! 3) e \<bind> (\<lambda>w. idx ALPHABET (of_char w)) = Some d"
proof -
  let ?e = "wiring_table 3 ! nat d"
  have r: "(3::nat) < 4" by simp
  from assms(2,3) have n: "nat d < 26" by simp
  from wiring_range(1) [OF r n] have e: "0 \<le> ?e" "?e < 26" by simp_all
  then have m: "nat ?e < 26" by simp
  from forward_lookup [OF r n] assms(1,2)
  have 1: "rd (rotors st ! 3) d \<bind> (\<lambda>w. idx ALPHABET (of_char w)) = Some ?e" by simp
  from forward_lookup [OF r m] assms(1) e reflector_lookup(1) [OF n] assms(2)
  have 2: "rd (rotors st ! 3) ?e \<bind> (\<lambda>w. idx ALPHABET (of_char w)) = Some d" by simp
  from reflector_lookup(2) [OF n] assms(2) have "?e \<noteq> d" by simp
  with 1 2 e show ?thesis by blast
qed

lemma letter_code_range:
  "is_upper_letter a \<Longrightarrow> 0 \<le> of_char a - (65::int) \<and> of_char a - (65::int) < 26"
  by (simp add: is_upper_letter_def)

lemma letter_of_code:
  "65 \<le> x \<Longrightarrow> x \<le> 90 \<Longrightarrow> is_upper_letter (char_of x) \<and> of_char (char_of x) = (x::int)"
  by (simp add: is_upper_letter_def)

lemma substitute_involution:
  assumes rot: "rotors st = ROTOR_WIRINGS"
    and pb: "plugboard_ok (plugboard st)"
    and x: "65 \<le> x" "x \<le> 90"
  shows "\<exists>y. substitute st x = Some y \<and> 65 \<le> y \<and> y \<le> 90 \<and> y \<noteq> x \<and> substitute st y = Some x"
proof -
  let ?P = "plugboard st"
  let ?p0 = "positions st ! 0" and ?p1 = "positions st ! 1" and ?p2 = "positions st ! 2"
  note lx = letter_of_code [OF x]
  from apply_plugboard_letter [OF pb conjunct1 [OF lx]]
  obtain a where a: "apply_plugboard (char_of x) ?P = Some a" "is_upper_letter a"
    "apply_plugboard a ?P = Some (char_of x)" by blast
  define k where "k = of_char a - (65::int)"
  from letter_code_range [OF a(2)] have k: "0 \<le> k" "k < 26" by (simp_all add: k_def)
  from rotor_pair_forward [OF rot _ k, of 2 ?p0]
  obtain b where b: "encode_through_rotor k 2 ?p0 0 st = Some b" "0 \<le> b" "b < 26"
    "encode_through_rotor b 2 ?p0 1 st = Some k" by auto
  from rotor_pair_forward [OF rot _ b(2,3), of 1 ?p1]
  obtain c where c: "encode_through_rotor b 1 ?p1 0 st = Some c" "0 \<le> c" "c < 26"
    "encode_through_rotor c 1 ?p1 1 st = Some b" by auto
  from rotor_pair_forward [OF rot _ c(2,3), of 0 ?p2]
  obtain d where d: "encode_through_rotor c 0 ?p2 0 st = Some d" "0 \<le> d" "d < 26"
    "encode_through_rotor d 0 ?p2 1 st = Some c" by auto
  from reflector_pair [OF rot d(2,3)]
  obtain e where e: "rd (rotors st ! 3) d \<bind> (\<lambda>w. idx ALPHABET (of_char w)) = Some e"
    "0 \<le> e" "e < 26" "e \<noteq> d"
    "rd (rotors st ! 3) e \<bind> (\<lambda>w. idx ALPHABET (of_char w)) = Some d" by blast
  from rotor_pair_reverse [OF rot _ e(2,3), of 0 ?p2]
  obtain f where f: "encode_through_rotor e 0 ?p2 1 st = Some f" "0 \<le> f" "f < 26"
    "encode_through_rotor f 0 ?p2 0 st = Some e" by auto
  from rotor_pair_reverse [OF rot _ f(2,3), of 1 ?p1]
  obtain g where g: "encode_through_rotor f 1 ?p1 1 st = Some g" "0 \<le> g" "g < 26"
    "encode_through_rotor g 1 ?p1 0 st = Some f" by auto
  from rotor_pair_reverse [OF rot _ g(2,3), of 2 ?p0]
  obtain h where h: "encode_through_rotor g 2 ?p0 1 st = Some h" "0 \<le> h" "h < 26"
    "encode_through_rotor h 2 ?p0 0 st = Some g" by auto
  from h(2,3) have hx: "65 \<le> h + 65" "h + 65 \<le> 90" by simp_all
  note lh = letter_of_code [OF hx]
  from apply_plugboard_letter [OF pb conjunct1 [OF lh]]
  obtain z where z: "apply_plugboard (char_of (h + 65)) ?P = Some z" "is_upper_letter z"
    "apply_plugboard z ?P = Some (char_of (h + 65))" by blast
  from e(1) obtain w where w: "rd (rotors st ! 3) d = Some w" "idx ALPHABET (of_char w) = Some e"
    by (auto simp: bind_eq_Some_conv)
  from e(5) obtain w' where w': "rd (rotors st ! 3) e = Some w'" "idx ALPHABET (of_char w') = Some d"
    by (auto simp: bind_eq_Some_conv)
  have 1: "substitute st x = Some (of_char z)"
    using a(1) b(1) c(1) d(1) w f(1) g(1) h(1) z(1)
    by (simp add: substitute_def k_def)
  have hz: "of_char (char_of (h + 65)) - (65::int) = h"
    using conjunct2 [OF lh] by simp
  have ka: "char_of (k + 65) = a" by (simp add: k_def)
  have 2: "substitute st (of_char z) = Some x"
    using z(3) hz h(4) g(4) f(4) w' d(4) c(4) b(4) ka a(3) conjunct2 [OF lx]
    by (simp add: substitute_def)
  have 3: "of_char z \<noteq> x"
  proof
    assume "of_char z = x"
    then have "char_of x = z" by auto
    with a(1) z(3) a(3) have "a = char_of (h + 65)" by simp
    then have "k = h" using hz by (simp add: k_def)
    with b(1) h(4) have "b = g" by simp
    with c(1) g(4) have "c = f" by simp
    with d(1) f(4) have "d = e" by simp
    with e(4) show False by simp
  qed
  from z(2) have 4: "65 \<le> (of_char z :: int)" "(of_char z :: int) \<le> 90"
    by (simp_all add: is_upper_letter_def)
  from 1 2 3 4 show ?thesis by blast
qed

section \<open>The loop, run twice\<close>

lemma step_rotors_frame:
  "rotors (step_rotors st) = rotors st \<and> plugboard (step_rotors st) = plugboard st \<and>
   notch_positions (step_rotors st) = notch_positions st"
  by (simp add: step_rotors_def Let_def)

lemma loop_body_non_letter:
  assumes "to_upper (of_char b) < 65 \<or> to_upper (of_char b) > 90"
  shows "loop_body st b = Some (st, b)" and "upper_char b = b"
proof -
  from to_upper_outside [OF assms] have u: "to_upper (of_char b) = of_char b" .
  then have "char_of (to_upper (of_char b)) = b" by simp
  with assms show "loop_body st b = Some (st, b)"
    by (simp add: loop_body_def Let_def)
  from u show "upper_char b = b"
    by (auto simp: to_upper_def upper_char_def split: if_splits)
qed

lemma upper_char_to_upper: "char_of (to_upper (of_char b)) = upper_char b"
  by (simp add: to_upper_def upper_char_def)

lemma to_upper_letter: "65 \<le> y \<Longrightarrow> y \<le> 90 \<Longrightarrow> to_upper (of_char (char_of y)) = (y::int)"
  by (simp add: to_upper_def)

lemma loop_body_involution:
  assumes rot: "rotors st = ROTOR_WIRINGS" and pb: "plugboard_ok (plugboard st)"
  shows "\<exists>st' out. loop_body st b = Some (st', out) \<and>
           loop_body st out = Some (st', upper_char b) \<and>
           rotors st' = ROTOR_WIRINGS \<and> plugboard_ok (plugboard st') \<and>
           (to_upper (of_char b) < 65 \<or> to_upper (of_char b) > 90 \<longrightarrow> out = b)"
proof (cases "to_upper (of_char b) < 65 \<or> to_upper (of_char b) > 90")
  case True
  from loop_body_non_letter [OF True] rot pb show ?thesis by simp
next
  case False
  let ?x = "to_upper (of_char b)"
  let ?s = "step_rotors st"
  from False have x: "65 \<le> ?x" "?x \<le> 90" by simp_all
  from rot pb have rot': "rotors ?s = ROTOR_WIRINGS" and pb': "plugboard_ok (plugboard ?s)"
    by (simp_all add: step_rotors_frame)
  from substitute_involution [OF rot' pb' x]
  obtain y where y: "substitute ?s ?x = Some y" "65 \<le> y" "y \<le> 90" "substitute ?s y = Some ?x"
    by blast
  have 1: "loop_body st b = Some (?s, char_of y)"
    using False y(1) by (simp add: loop_body_def Let_def)
  have 2: "loop_body st (char_of y) = Some (?s, upper_char b)"
    using y(2,3,4) to_upper_letter [OF y(2,3)]
    by (simp add: loop_body_def Let_def upper_char_to_upper)
  from 1 2 rot' pb' False show ?thesis by simp
qed

lemma run_enigma_involution:
  assumes "rotors st = ROTOR_WIRINGS" and "plugboard_ok (plugboard st)"
  shows "\<exists>s C. run_enigma st M = Some (s, C) \<and> run_enigma st C = Some (s, map upper_char M) \<and>
           length C = length M \<and>
           (\<forall>i<length M. to_upper (of_char (M ! i)) < 65 \<or> to_upper (of_char (M ! i)) > 90
                          \<longrightarrow> C ! i = M ! i)"
  using assms
proof (induction M arbitrary: st)
  case Nil
  show ?case by simp
next
  case (Cons b M)
  from loop_body_involution [OF Cons.prems, of b]
  obtain st' out where l: "loop_body st b = Some (st', out)"
    "loop_body st out = Some (st', upper_char b)"
    "rotors st' = ROTOR_WIRINGS" "plugboard_ok (plugboard st')"
    "to_upper (of_char b) < 65 \<or> to_upper (of_char b) > 90 \<longrightarrow> out = b"
    by blast
  from Cons.IH [OF l(3,4)]
  obtain s C where r: "run_enigma st' M = Some (s, C)"
    "run_enigma st' C = Some (s, map upper_char M)" "length C = length M"
    "\<forall>i<length M. to_upper (of_char (M ! i)) < 65 \<or> to_upper (of_char (M ! i)) > 90
                          \<longrightarrow> C ! i = M ! i"
    by blast
  have 1: "run_enigma st (b # M) = Some (s, out # C)"
    using l(1) r(1) by simp
  have 2: "run_enigma st (out # C) = Some (s, map upper_char (b # M))"
    using l(2) r(2) by simp
  have 3: "\<forall>i<length (b # M).
            to_upper (of_char ((b # M) ! i)) < 65 \<or> to_upper (of_char ((b # M) ! i)) > 90
              \<longrightarrow> (out # C) ! i = (b # M) ! i"
  proof (intro allI impI)
    fix i
    assume i: "i < length (b # M)"
      and n: "to_upper (of_char ((b # M) ! i)) < 65 \<or> to_upper (of_char ((b # M) ! i)) > 90"
    show "(out # C) ! i = (b # M) ! i"
    proof (cases i)
      case 0
      with n l(5) show ?thesis by simp
    next
      case (Suc j)
      with i n r(4) show ?thesis by auto
    qed
  qed
  from 1 2 3 r(3) show ?case by simp
qed

section \<open>Constructed states\<close>

lemma pairs_layout_chars:
  "pairs_layout t \<Longrightarrow> \<forall>x\<in>set t. is_upper_letter x \<or> x = SPACE"
proof (induction t rule: pairs_layout.induct)
  case 1
  show ?case by simp
next
  case (2 a)
  then show ?case by simp
next
  case (3 a b r)
  let ?sp = "\<lambda>x. x = SPACE"
  have "set (takeWhile ?sp r @ dropWhile ?sp r) = set r"
    by (simp only: takeWhile_dropWhile_id)
  then have s: "set r = set (takeWhile ?sp r) \<union> set (dropWhile ?sp r)"
    by (simp only: set_append)
  have t: "\<forall>x\<in>set (takeWhile ?sp r). x = SPACE"
    by (auto dest: set_takeWhileD)
  from "3.prems" "3.IH" have "\<forall>x\<in>set (dropWhile ?sp r). is_upper_letter x \<or> x = SPACE"
    by simp
  with s t "3.prems" show ?case by auto
qed

lemma pairs_layout_no_NUL: "pairs_layout t \<Longrightarrow> NUL \<notin> set t"
proof
  assume "pairs_layout t" and "NUL \<in> set t"
  with pairs_layout_chars have "is_upper_letter NUL \<or> NUL = SPACE" by blast
  then show False by (simp add: is_upper_letter_def NUL_def SPACE_def)
qed

lemma set_plugboard_accepts:
  assumes "length cfg \<le> 255"
  shows "set_plugboard state (Some cfg)
           = Inr (state\<lparr>plugboard :=
                   map upper_char (take (strlen (SAFE_STRCPY (plugboard state) cfg))
                                        (SAFE_STRCPY (plugboard state) cfg))
                   @ drop (strlen (SAFE_STRCPY (plugboard state) cfg))
                          (SAFE_STRCPY (plugboard state) cfg)\<rparr>)"
  using assms by (simp add: set_plugboard_def MAX_PLUGBOARD_LEN_def Let_def)

lemma set_plugboard_stored:
  assumes "NUL \<notin> set cfg"
  shows "map upper_char (take (strlen (SAFE_STRCPY pb cfg)) (SAFE_STRCPY pb cfg))
           @ drop (strlen (SAFE_STRCPY pb cfg)) (SAFE_STRCPY pb cfg)
         = map upper_char cfg @ NUL # drop (length cfg + 1) pb"
proof -
  from assms have "strlen (SAFE_STRCPY pb cfg) = length cfg"
    by (simp add: strlen_def SAFE_STRCPY_def content_append_NUL)
  then show ?thesis by (simp add: SAFE_STRCPY_def)
qed

lemma upper_char_no_NUL: "NUL \<notin> set (map upper_char cfg) \<longleftrightarrow> NUL \<notin> set cfg"
proof -
  have "NUL \<in> upper_char ` set cfg \<longleftrightarrow> NUL \<in> set cfg"
  proof
    assume "NUL \<in> upper_char ` set cfg"
    then obtain x where x: "x \<in> set cfg" and "upper_char x = NUL" by auto
    then have "x = NUL" by (simp only: upper_char_NUL)
    with x show "NUL \<in> set cfg" by simp
  next
    assume "NUL \<in> set cfg"
    moreover have "upper_char NUL = NUL" by (simp add: upper_char_NUL)
    ultimately show "NUL \<in> upper_char ` set cfg" by force
  qed
  then show ?thesis by simp
qed

lemma plug_config_stored:
  assumes "plug_config_ok cfg"
  shows "\<exists>s. set_plugboard state (Some cfg) = Inr s \<and> rotors s = rotors state \<and>
             positions s = positions state \<and> plugboard_ok (plugboard s)"
proof -
  from assms have len: "length cfg \<le> 255" and lay: "pairs_layout (map upper_char cfg)"
    and di: "distinct (filter (\<lambda>x. x \<noteq> SPACE) (map upper_char cfg))"
    by (simp_all add: plug_config_ok_def)
  from pairs_layout_no_NUL [OF lay] have up: "NUL \<notin> set (map upper_char cfg)" .
  with upper_char_no_NUL [of cfg] have nn: "NUL \<notin> set cfg" by blast
  let ?pb = "map upper_char cfg @ NUL # drop (length cfg + 1) (plugboard state)"
  from up have c: "content ?pb = map upper_char cfg"
    by (simp add: content_def content_append_NUL)
  with lay di have "plugboard_ok ?pb"
    by (simp add: plugboard_ok_def)
  with set_plugboard_accepts [OF len, of state] set_plugboard_stored [OF nn, of "plugboard state"]
  show ?thesis by simp
qed

lemma set_rotor_positions_frame:
  "set_rotor_positions state arg = Inr s \<Longrightarrow>
     rotors s = rotors state \<and> plugboard s = plugboard state \<and>
     notch_positions s = notch_positions state"
  by (auto simp: set_rotor_positions_def Let_def split: option.splits if_splits)

section \<open>Involution and absence of fixed points\<close>

text \<open>
  C4. In a state with the wirings as initialised, three positions in 0..25 and a
  well-formed plugboard, the substitution of lines 196-218 maps every letter A..Z
  (character codes 65..90) to a letter different from it.
\<close>

theorem substitute_no_fixed_point:
  assumes "rotors state = rotors init_enigma"
    and "length (positions state) = 3"
    and "\<forall>p\<in>set (positions state). 0 \<le> p \<and> p \<le> 25"
    and "plugboard_ok (plugboard state)"
    and "65 \<le> x" and "x \<le> 90"
  shows "\<exists>y. substitute state x = Some y \<and> 65 \<le> y \<and> y \<le> 90 \<and> y \<noteq> x"
proof -
  from assms(1) have rot: "rotors state = ROTOR_WIRINGS" by (simp add: rotors_init)
  from substitute_involution [OF rot assms(4,5,6)] show ?thesis by blast
qed

theorem substitute_no_fixed_point_witness:
  "rotors (init_enigma\<lparr>positions := [21, 4, 16], plugboard := ''AB CD'' @ replicate 251 NUL\<rparr>)
     = rotors init_enigma \<and>
   positions (init_enigma\<lparr>positions := [21, 4, 16],
                         plugboard := ''AB CD'' @ replicate 251 NUL\<rparr>) = [21, 4, 16] \<and>
   plugboard_ok (plugboard (init_enigma\<lparr>positions := [21, 4, 16],
                                        plugboard := ''AB CD'' @ replicate 251 NUL\<rparr>)) \<and>
   (65::int) \<le> 65 \<and> (65::int) \<le> 90 \<and>
   (\<exists>y. substitute (init_enigma\<lparr>positions := [21, 4, 16],
                                 plugboard := ''AB CD'' @ replicate 251 NUL\<rparr>) 65 = Some y \<and>
        65 \<le> y \<and> y \<le> 90 \<and> y \<noteq> 65)"
proof -
  let ?s = "init_enigma\<lparr>positions := [21, 4, 16], plugboard := ''AB CD'' @ replicate 251 NUL\<rparr>"
  have 1: "rotors ?s = rotors init_enigma" by simp
  have 2: "length (positions ?s) = 3" by simp
  have 3: "\<forall>p\<in>set (positions ?s). 0 \<le> p \<and> p \<le> 25" by simp
  have 4: "plugboard_ok (plugboard ?s)" by code_simp
  have 5: "(65::int) \<le> 65" and 6: "(65::int) \<le> 90" by simp_all
  from substitute_no_fixed_point [OF 1 2 3 4 5 6] 1 4 show ?thesis by simp
qed

text \<open>
  C2, as the claim states it, fails on input with lower-case letters: the stream \<open>a\<close> is
  enciphered to \<open>B\<close>, and \<open>B\<close> from the same initial state to \<open>A\<close>, not to \<open>a\<close>.
\<close>

theorem lower_case_not_recovered:
  "map_option snd (run_enigma init_enigma ''a'') = Some ''B'' \<and>
   map_option snd (run_enigma init_enigma ''B'') = Some ''A'' \<and> ''A'' \<noteq> ''a''"
  by code_simp

text \<open>
  C2, amended. For an initial state made by \<open>set_rotor_positions\<close> and \<open>set_plugboard\<close>
  from the initialised state, with any accepted positions and a well-formed plugboard
  string, and for every input stream \<open>M\<close>: enciphering \<open>M\<close> yields some \<open>C\<close> of the same
  length, and enciphering \<open>C\<close> from the same initial state yields \<open>M\<close> with its lower-case
  letters folded to upper case; both runs end in the same state, and a byte of \<open>M\<close> that is
  not a letter stands unchanged at its place in \<open>C\<close>.
\<close>

theorem run_enigma_round_trip:
  assumes "set_rotor_positions init_enigma (Some pos) = Inr s1"
    and "plug_config_ok cfg"
    and "set_plugboard s1 (Some cfg) = Inr s0"
  shows "\<exists>s C. run_enigma s0 M = Some (s, C) \<and>
           run_enigma s0 C = Some (s, map upper_char M) \<and>
           length C = length M \<and>
           (\<forall>i<length M. to_upper (of_char (M ! i)) < 65 \<or> to_upper (of_char (M ! i)) > 90
                          \<longrightarrow> C ! i = M ! i)"
proof -
  from set_rotor_positions_frame [OF assms(1)] have "rotors s1 = ROTOR_WIRINGS"
    by (simp add: rotors_init)
  with plug_config_stored [OF assms(2), of s1] assms(3)
  have "rotors s0 = ROTOR_WIRINGS" and "plugboard_ok (plugboard s0)" by auto
  then show ?thesis by (rule run_enigma_involution)
qed

theorem run_enigma_round_trip_witness:
  "set_rotor_positions init_enigma (Some ''QeV'') = Inr (init_enigma\<lparr>positions := [21, 36, 16]\<rparr>) \<and>
   plug_config_ok ''ab CD'' \<and>
   set_plugboard (init_enigma\<lparr>positions := [21, 36, 16]\<rparr>) (Some ''ab CD'')
     = Inr (init_enigma\<lparr>positions := [21, 36, 16], plugboard := ''AB CD'' @ replicate 251 NUL\<rparr>) \<and>
   (\<exists>s C. run_enigma (init_enigma\<lparr>positions := [21, 36, 16],
                                   plugboard := ''AB CD'' @ replicate 251 NUL\<rparr>) ''Hello, World'' = Some (s, C) \<and>
      run_enigma (init_enigma\<lparr>positions := [21, 36, 16],
                              plugboard := ''AB CD'' @ replicate 251 NUL\<rparr>) C = Some (s, ''HELLO, WORLD'') \<and>
      C ! 5 = CHR '','')"
proof -
  let ?s1 = "init_enigma\<lparr>positions := [21, 36, 16]\<rparr>"
  let ?s0 = "init_enigma\<lparr>positions := [21, 36, 16], plugboard := ''AB CD'' @ replicate 251 NUL\<rparr>"
  have 1: "set_rotor_positions init_enigma (Some ''QeV'') = Inr ?s1" by code_simp
  have 2: "plug_config_ok ''ab CD''" by code_simp
  have 3: "set_plugboard ?s1 (Some ''ab CD'') = Inr ?s0" by code_simp
  have u: "map upper_char ''Hello, World'' = ''HELLO, WORLD''" by code_simp
  have n: "to_upper (of_char (''Hello, World'' ! 5)) < 65" by (simp add: to_upper_def)
  from run_enigma_round_trip [OF 1 2 3, of "''Hello, World''"]
  obtain s C where r: "run_enigma ?s0 ''Hello, World'' = Some (s, C)"
    "run_enigma ?s0 C = Some (s, map upper_char ''Hello, World'')"
    "\<forall>i<length ''Hello, World''.
        to_upper (of_char (''Hello, World'' ! i)) < 65 \<or> to_upper (of_char (''Hello, World'' ! i)) > 90
          \<longrightarrow> C ! i = ''Hello, World'' ! i"
    by blast
  from r(3) n have "C ! 5 = ''Hello, World'' ! 5" by simp
  then have "C ! 5 = CHR '',''" by simp
  with r(1,2) u 1 2 3 show ?thesis by auto
qed

end
